theory Spec2Isabelle
  imports Complex_Main "HOL-Library.Word"
begin

unbundle bit_operations_syntax

section \<open>Values\<close>

text \<open>
  Go's \<open>float64\<close>. Finite values are taken as real numbers (rounding, overflow to
  infinity and the sign of zero are left out); the IEEE results that are not numbers
  are kept, because the code reaches them: \<open>0/0\<close> is \<open>NaN\<close>, \<open>x/0\<close> an infinity, and
  every comparison with \<open>NaN\<close> is false. In the sums of the temporal smoother
  rounding can change a byte of the output once the history is long; there the exact
  arithmetic is used only as far as \<open>float64\<close> is exact.
\<close>

datatype f64 = Fin real | PInf | NInf | NaN

type_synonym byte = "8 word"

text \<open>The run-time panics of Go that the modelled code can raise.\<close>

datatype panic = IndexOutOfRange | SliceBoundsOutOfRange | MakeLenOutOfRange

subsection \<open>Arithmetic on \<open>float64\<close>\<close>

fun fneg :: "f64 \<Rightarrow> f64" where
  "fneg (Fin a) = Fin (- a)"
| "fneg PInf = NInf"
| "fneg NInf = PInf"
| "fneg NaN = NaN"

fun fadd :: "f64 \<Rightarrow> f64 \<Rightarrow> f64" where
  "fadd (Fin a) (Fin b) = Fin (a + b)"
| "fadd NaN _ = NaN"
| "fadd _ NaN = NaN"
| "fadd PInf NInf = NaN"
| "fadd NInf PInf = NaN"
| "fadd PInf _ = PInf"
| "fadd _ PInf = PInf"
| "fadd NInf _ = NInf"
| "fadd _ NInf = NInf"

definition fsub :: "f64 \<Rightarrow> f64 \<Rightarrow> f64" where
  "fsub a b = fadd a (fneg b)"

fun fmul :: "f64 \<Rightarrow> f64 \<Rightarrow> f64" where
  "fmul (Fin a) (Fin b) = Fin (a * b)"
| "fmul NaN _ = NaN"
| "fmul _ NaN = NaN"
| "fmul (Fin a) i = (if a = 0 then NaN else if (0 < a) = (i = PInf) then PInf else NInf)"
| "fmul i (Fin b) = (if b = 0 then NaN else if (0 < b) = (i = PInf) then PInf else NInf)"
| "fmul i j = (if i = j then PInf else NInf)"

text \<open>
  Division does not panic on floats: a zero divisor gives \<open>NaN\<close> for \<open>0/0\<close> and an
  infinity otherwise (the model's zero is \<open>+0\<close>).
\<close>

fun fdiv :: "f64 \<Rightarrow> f64 \<Rightarrow> f64" where
  "fdiv (Fin a) (Fin b) =
     (if b = 0 then (if a = 0 then NaN else if 0 < a then PInf else NInf) else Fin (a / b))"
| "fdiv NaN _ = NaN"
| "fdiv _ NaN = NaN"
| "fdiv (Fin a) _ = Fin 0"
| "fdiv i (Fin b) = (if (0 \<le> b) = (i = PInf) then PInf else NInf)"
| "fdiv _ _ = NaN"

text \<open>The comparisons \<open><\<close> and \<open>==\<close>; \<open>a > b\<close> is \<open>flt b a\<close>.\<close>

fun flt :: "f64 \<Rightarrow> f64 \<Rightarrow> bool" where
  "flt (Fin a) (Fin b) = (a < b)"
| "flt NaN _ = False"
| "flt _ NaN = False"
| "flt PInf _ = False"
| "flt _ NInf = False"
| "flt _ _ = True"

definition feq :: "f64 \<Rightarrow> f64 \<Rightarrow> bool" where
  "feq a b = (a \<noteq> NaN \<and> a = b)"

text \<open>\<open>math.Min\<close> and \<open>math.Max\<close>: the infinity wins first, then \<open>NaN\<close>.\<close>

definition fmin :: "f64 \<Rightarrow> f64 \<Rightarrow> f64" where
  "fmin x y =
     (if x = NInf \<or> y = NInf then NInf
      else if x = NaN \<or> y = NaN then NaN
      else if flt x y then x else y)"

definition fmax :: "f64 \<Rightarrow> f64 \<Rightarrow> f64" where
  "fmax x y =
     (if x = PInf \<or> y = PInf then PInf
      else if x = NaN \<or> y = NaN then NaN
      else if flt y x then x else y)"

text \<open>\<open>math.Sqrt(x)\<close>, \<open>math.Pow(x, 0.5)\<close> and \<open>math.Pow(x, 2)\<close>.\<close>

fun fsqrt :: "f64 \<Rightarrow> f64" where
  "fsqrt (Fin a) = (if a < 0 then NaN else Fin (sqrt a))"
| "fsqrt PInf = PInf"
| "fsqrt NInf = NaN"
| "fsqrt NaN = NaN"

fun pow_half :: "f64 \<Rightarrow> f64" where
  "pow_half (Fin a) = (if a < 0 then NaN else Fin (sqrt a))"
| "pow_half PInf = PInf"
| "pow_half NInf = PInf"
| "pow_half NaN = NaN"

fun pow_two :: "f64 \<Rightarrow> f64" where
  "pow_two (Fin a) = Fin (a * a)"
| "pow_two PInf = PInf"
| "pow_two NInf = PInf"
| "pow_two NaN = NaN"

text \<open>A loop body that can panic, run over a list: the first panic ends the loop.\<close>

fun traverse :: "('a \<Rightarrow> panic + 'b) \<Rightarrow> 'a list \<Rightarrow> panic + 'b list" where
  "traverse f [] = Inr []"
| "traverse f (x # xs) =
     (case f x of
        Inl e \<Rightarrow> Inl e
      | Inr y \<Rightarrow> (case traverse f xs of Inl e \<Rightarrow> Inl e | Inr ys \<Rightarrow> Inr (y # ys)))"

section \<open>Frame decoder\<close>

text \<open>
  \<open>readInt32\<close> indexes \<open>b[0]\<close> to \<open>b[3]\<close>; a shorter slice panics. The result is an
  \<open>int32\<close>, kept as a 32-bit word and read with \<open>sint\<close>.
\<close>

definition readInt32 :: "byte list \<Rightarrow> panic + 32 word" where
  "readInt32 b =
     (if length b < 4 then Inl IndexOutOfRange
      else Inr (ucast (b ! 0) OR push_bit 8 (ucast (b ! 1))
                OR push_bit 16 (ucast (b ! 2)) OR push_bit 24 (ucast (b ! 3))))"

text \<open>
  The decoding loop of \<open>startCapture\<close>:
  \<^verbatim>\<open>for i := 0; i < len(buf); i += 4 { v := float64(readInt32(buf[i : i+4])); samples = append(samples, v) }\<close>
  The first argument is \<open>buf[i:]\<close>. The slice expression \<open>buf[i : i+4]\<close> panics when fewer
  than four bytes remain (\<open>buf\<close> was made with capacity \<open>len(buf)\<close>).
\<close>

fun decode_loop :: "byte list \<Rightarrow> f64 list \<Rightarrow> panic + f64 list" where
  "decode_loop [] samples = Inr samples"
| "decode_loop (b0 # b1 # b2 # b3 # rest) samples =
     (case readInt32 [b0, b1, b2, b3] of
        Inl e \<Rightarrow> Inl e
      | Inr w \<Rightarrow> decode_loop rest (samples @ [Fin (real_of_int (sint w))]))"
| "decode_loop _ samples = Inl SliceBoundsOutOfRange"

text \<open>
  \<^verbatim>\<open>samples := make([]float64, len(buf)/4)\<close> followed by the loop: \<open>make\<close> with one size
  argument gives a slice of that \<^emph>\<open>length\<close>, filled with zeros, and \<open>append\<close> adds behind it.
\<close>

definition decode :: "byte list \<Rightarrow> panic + f64 list" where
  "decode buf = decode_loop buf (replicate (length buf div 4) (Fin 0))"

section \<open>The pipeline's data\<close>

record Segment =
  Id :: int
  Leds :: int

text \<open>\<open>visualizer.Segment\<close> and \<open>visualizer.UpdateEvent\<close>, as \<open>process\<close> builds them.\<close>

record OutSegment =
  SegId :: int
  Pix :: "byte list"

record UpdateEvent =
  Segments :: "OutSegment list"
  Duration :: nat

text \<open>
  The channel \<open>v.done\<close>, seen from \<open>Stop\<close>: the nil channel of a \<open>Visualizer\<close> that was never
  started, or the unbuffered channel that \<open>Start\<close> made, with the number of sends that its
  supervising goroutine has still to deliver. That goroutine sends once, when it sees its
  context cancelled, and returns.
\<close>

datatype chan = NilChan | Chan nat

text \<open>
  The struct \<open>Visualizer\<close>. \<open>cancel\<close> is whether the field holds a function (is not nil),
  \<open>done_ch\<close> the field \<open>done\<close>;
  \<open>gradient\<close> is the colour lookup \<open>v.gradient.GetInterpolatedColor\<close>, over a colour type
  \<open>'c\<close> left open (package \<open>gradient\<close> is not part of the sources). The mutex, the event
  channel and \<open>childCancel\<close> are not fields of the model: \<open>process\<close> returns the event it
  sends.
\<close>

record 'c Visualizer =
  leds :: int
  colors :: "'c list"
  segments :: "Segment list"
  cancel :: bool
  done_ch :: chan
  maxLedCount :: int
  processing :: bool
  gradient :: "f64 \<Rightarrow> 'c"
  windowSize :: int

text \<open>
  The package-level variables \<^verbatim>\<open>var pixs [][]byte\<close> (the smoothing history) and
  \<^verbatim>\<open>var it int\<close>. They are no fields of \<open>Visualizer\<close>: every call of \<open>process\<close>, on whichever
  \<open>Visualizer\<close>, reads and writes the same two variables.
\<close>

record globals =
  pixs :: "byte list list"
  it :: "64 word"

text \<open>
  What \<open>process\<close> calls in other packages, taken as parameters:
  \<^item> \<open>fft_abs samples\<close>: the magnitudes \<open>cmplx.Abs(c)\<close> of the first half
    \<open>coeff[:len(coeff)/2]\<close> of \<open>fft.Coefficients(nil, window.Hamming(samples))\<close>;
  \<^item> \<open>interp X Y x\<close>: \<open>piecewiselinear.Function{X: X, Y: Y}.At(x)\<close>;
  \<^item> \<open>hsv c\<close>: \<open>colorful.MakeColor(c)\<close> followed by \<open>Hsv()\<close>;
  \<^item> \<open>hsv_rgba h s v\<close>: the first three results of \<open>colorful.Hsv(h, s, v).RGBA()\<close>;
  \<^item> \<open>uint8_other x\<close>: the byte that the conversion \<open>uint8(x)\<close> gives when \<open>x\<close>, cut to an
    integer, is no \<open>uint8\<close> (Go leaves that value to the implementation);
  \<^item> \<open>smooth_rounded h j\<close>: the value that lines 499 to 521 give in \<open>float64\<close> at byte
    position \<open>j\<close> for the history \<open>h\<close>, when the weighted sums are too large for
    \<open>float64\<close> to hold them exactly (see \<open>exact_sums\<close> below).
\<close>

record 'c ext =
  fft_abs :: "f64 list \<Rightarrow> f64 list"
  interp :: "f64 list \<Rightarrow> f64 list \<Rightarrow> f64 \<Rightarrow> panic + f64"
  hsv :: "'c \<Rightarrow> f64 \<times> f64 \<times> f64"
  hsv_rgba :: "f64 \<Rightarrow> f64 \<Rightarrow> f64 \<Rightarrow> 32 word \<times> 32 word \<times> 32 word"
  uint8_other :: "f64 \<Rightarrow> byte"
  smooth_rounded :: "byte list list \<Rightarrow> nat \<Rightarrow> f64"

section \<open>Lifecycle\<close>

text \<open>\<open>new(Visualizer)\<close>: every field at its zero value; the colour lookup is a parameter.\<close>

definition new_Visualizer :: "(f64 \<Rightarrow> 'c) \<Rightarrow> 'c Visualizer" where
  "new_Visualizer gr =
     \<lparr>leds = 0, colors = [], segments = [], cancel = False, done_ch = NilChan, maxLedCount = 0,
      processing = False, gradient = gr, windowSize = 0\<rparr>"

text \<open>
  \<open>Start\<close> stores the cancel function and a fresh channel and spawns the supervising
  goroutine, which has sent nothing yet.
\<close>

definition Start :: "'c Visualizer \<Rightarrow> 'c Visualizer" where
  "Start v = v\<lparr>cancel := True, done_ch := Chan 0\<rparr>"

text \<open>
  Calling the stored cancel function makes the supervising goroutine send once on
  \<open>v.done\<close> (its branch \<^verbatim>\<open>case <-ctx.Done(): v.done <- true; return\<close>).
\<close>

fun cancelled :: "chan \<Rightarrow> chan" where
  "cancelled NilChan = NilChan"
| "cancelled (Chan n) = Chan (Suc n)"

text \<open>
  The receive \<^verbatim>\<open><-v.done\<close>: \<open>None\<close> when it blocks for ever (the nil channel, or a channel on
  which no send will come), else the channel after the receive.
\<close>

fun recv :: "chan \<Rightarrow> chan option" where
  "recv NilChan = None"
| "recv (Chan 0) = None"
| "recv (Chan (Suc n)) = Some (Chan n)"

text \<open>\<open>Stop\<close>; \<open>None\<close> is a call that never returns. The error it returns is always nil.\<close>

definition Stop :: "'c Visualizer \<Rightarrow> 'c Visualizer option" where
  "Stop v =
     (let v1 = (if cancel v then v\<lparr>done_ch := cancelled (done_ch v), cancel := False\<rparr> else v)
      in case recv (done_ch v1) of
           None \<Rightarrow> None
         | Some ch \<Rightarrow> Some (v1\<lparr>done_ch := ch\<rparr>))"

section \<open>Spectral analyzer\<close>

text \<open>\<open>SpanLog\<close>; \<open>make\<close> panics on a negative length.\<close>

definition SpanLog :: "f64 \<Rightarrow> f64 \<Rightarrow> int \<Rightarrow> panic + f64 list" where
  "SpanLog min0 max0 nPoints =
     (if nPoints < 0 then Inl MakeLenOutOfRange
      else
        let mn = fmin max0 min0; mx = fmax max0 min0; d = fsub mx mn
        in Inr (map (\<lambda>i. pow_half (fadd mn (fmul d
                   (fdiv (Fin (real i)) (Fin (real_of_int (nPoints - 1)))))))
                 [0..<nat nPoints]))"

definition normalize :: "f64 \<Rightarrow> f64 \<Rightarrow> f64 \<Rightarrow> f64" where
  "normalize val mn mx = (if feq mx mn then mx else fdiv (fsub val mn) (fsub mx mn))"

text \<open>The running maximum \<^verbatim>\<open>if cmplx.Abs(c) > maxfreq { maxfreq = cmplx.Abs(c) }\<close>, from 0.\<close>

definition maxfreq :: "f64 list \<Rightarrow> f64" where
  "maxfreq mags = foldl (\<lambda>m a. if flt m a then a else m) (Fin 0) mags"

text \<open>The silence gate \<^verbatim>\<open>if peak == 0 { for i := range freqs { freqs[i] = 0 } }\<close>.\<close>

definition silence_gate :: "f64 \<Rightarrow> f64 list \<Rightarrow> f64 list" where
  "silence_gate peak freqs = (if feq peak (Fin 0) then map (\<lambda>_. Fin 0) freqs else freqs)"

text \<open>
  Lines 362 to 402 of \<open>process\<close>: the magnitudes \<open>freqs\<close> and their maximum, the silence
  gate, and the normalisation by the maximum (which was taken before the gate). The
  energy \<open>e\<close> computed first is used nowhere and is left out.
\<close>

definition normalized :: "'c ext \<Rightarrow> f64 list \<Rightarrow> f64 \<Rightarrow> f64 list" where
  "normalized ex samples peak =
     (let freqs = fft_abs ex samples;
          mf = maxfreq freqs;
          freqs = silence_gate peak freqs
      in map (\<lambda>f. normalize f (Fin 0) mf) freqs)"

text \<open>
  Lines 405 to 413: the normalised magnitudes as a function over the warped axis,
  read at \<open>maxLeds\<close> points \<open>i / (maxLeds - 1)\<close>.
\<close>

definition analyze :: "'c ext \<Rightarrow> int \<Rightarrow> f64 list \<Rightarrow> f64 \<Rightarrow> panic + f64 list" where
  "analyze ex maxLeds samples peak =
     (let Y = normalized ex samples peak
      in case SpanLog (Fin 0) (Fin 1) (int (length Y)) of
           Inl e \<Rightarrow> Inl e
         | Inr X \<Rightarrow>
             if maxLeds < 0 then Inl MakeLenOutOfRange
             else traverse (\<lambda>i. interp ex X Y (fdiv (Fin (real i)) (Fin (real_of_int (maxLeds - 1)))))
                    [0..<nat maxLeds])"

section \<open>Colour synthesizer\<close>

text \<open>The value component that replaces the gradient colour's own (lines 441 to 471).\<close>

definition shape_val :: "f64 \<Rightarrow> f64 \<Rightarrow> f64" where
  "shape_val freq peak =
     (let val = fsqrt (fsub (Fin 1) (pow_two (fsub freq (Fin 1))));
          val = fmul (fmin (fmul peak (Fin 5)) (Fin 1)) val;
          val = fmin val (Fin 1);
          val = fmax val (Fin 0)
      in fadd (Fin 0.25) (fmul val (Fin 0.75)))"

definition hsv_pixel :: "'c ext \<Rightarrow> f64 \<Rightarrow> f64 \<Rightarrow> f64 \<Rightarrow> byte list" where
  "hsv_pixel ex hue sat val =
     (case hsv_rgba ex hue sat val of
        (r, g, b) \<Rightarrow> [ucast (drop_bit 8 r), ucast (drop_bit 8 g), ucast (drop_bit 8 b), 0xFF])"

definition pixel :: "'c ext \<Rightarrow> 'c Visualizer \<Rightarrow> f64 \<Rightarrow> f64 \<Rightarrow> byte list" where
  "pixel ex v peak freq =
     (case hsv ex (gradient v freq) of
        (hue, sat, val0) \<Rightarrow> hsv_pixel ex hue sat (shape_val freq peak))"

definition synthesize :: "'c ext \<Rightarrow> 'c Visualizer \<Rightarrow> f64 \<Rightarrow> f64 list \<Rightarrow> byte list" where
  "synthesize ex v peak freqs = concat (map (pixel ex v peak) freqs)"

section \<open>Temporal smoother\<close>

text \<open>
  \<^verbatim>\<open>pixs = append(pixs, pix); if len(pixs) > v.windowSize { pixs = pixs[1:] }\<close>
\<close>

definition history_append :: "int \<Rightarrow> byte list list \<Rightarrow> byte list \<Rightarrow> byte list list" where
  "history_append ws h pix =
     (let h1 = h @ [pix] in if int (length h1) > ws then drop 1 h1 else h1)"

text \<open>
  The weights \<^verbatim>\<open>float64((i+1)*(i+1) + len(pixs)*len(pixs))\<close> for \<open>i\<close> from 0 to \<open>len(pixs) - 1\<close>,
  and their running sum \<open>weightsTotal\<close>.
\<close>

definition weight :: "nat \<Rightarrow> nat \<Rightarrow> nat" where
  "weight L i = (i + 1) * (i + 1) + L * L"

definition weights :: "nat \<Rightarrow> f64 list" where
  "weights L = map (\<lambda>i. Fin (real (weight L i))) [0..<L]"

definition weightsTotal :: "nat \<Rightarrow> f64" where
  "weightsTotal L = foldl fadd (Fin 0) (weights L)"

text \<open>
  The inner loop \<^verbatim>\<open>for j, p := range p2 { pix2[j] = pix2[j] + float64(p)*weights[i] }\<close>, from
  position \<open>j\<close> on: \<open>pix2[j]\<close> panics when the history frame is longer than \<open>pix2\<close>.
\<close>

fun add_frame :: "f64 \<Rightarrow> byte list \<Rightarrow> nat \<Rightarrow> f64 list \<Rightarrow> panic + f64 list" where
  "add_frame w [] j pix2 = Inr pix2"
| "add_frame w (p # ps) j pix2 =
     (if j < length pix2
      then add_frame w ps (Suc j) (pix2[j := fadd (pix2 ! j) (fmul (Fin (real (unat p))) w)])
      else Inl IndexOutOfRange)"

text \<open>The outer loop \<^verbatim>\<open>for i, p2 := range pixs\<close>, each frame with its weight.\<close>

fun add_frames :: "(f64 \<times> byte list) list \<Rightarrow> f64 list \<Rightarrow> panic + f64 list" where
  "add_frames [] pix2 = Inr pix2"
| "add_frames ((w, p2) # rest) pix2 =
     (case add_frame w p2 0 pix2 of
        Inl e \<Rightarrow> Inl e
      | Inr pix2' \<Rightarrow> add_frames rest pix2')"

text \<open>
  \<open>float64\<close> holds every integer below \<open>2^53\<close> exactly. The weights of a history of \<open>L\<close>
  frames add up to \<open>weight_sum L\<close>, and a weighted sum of bytes is at most 255 times that:
  while this stays below \<open>2^53\<close> (it does up to \<open>L = 29810\<close>) no sum of the smoothing is
  rounded, and the rounding of the quotient does not reach the next integer.
\<close>

definition weight_sum :: "nat \<Rightarrow> nat" where
  "weight_sum L = sum_list (map (weight L) [0..<L])"

definition exact_sums :: "nat \<Rightarrow> bool" where
  "exact_sums L \<longleftrightarrow> 255 * weight_sum L < 2 ^ 53"

text \<open>
  Lines 499 to 521: the smoothed frame \<open>pix3\<close> for the history \<open>h\<close> and a current frame of
  \<open>n\<close> bytes. The panic of the summing loop does not depend on the values. The values are
  those of the exact arithmetic while the sums are exact; for a longer history
  \<open>float64\<close> rounds the sums, and the values are the parameter \<open>smooth_rounded\<close>.
\<close>

definition smooth :: "'c ext \<Rightarrow> byte list list \<Rightarrow> nat \<Rightarrow> panic + f64 list" where
  "smooth ex h n =
     (case add_frames (zip (weights (length h)) h) (replicate n (Fin 0)) of
        Inl e \<Rightarrow> Inl e
      | Inr pix2 \<Rightarrow>
          if exact_sums (length h)
          then Inr (map (\<lambda>p. fdiv p (weightsTotal (length h))) pix2)
          else Inr (map (smooth_rounded ex h) [0..<n]))"

text \<open>
  Lines 494 to 521 as one step of a \<open>Visualizer\<close> on the package-level state: append the
  new frame, evict, smooth.
\<close>

definition smooth_step ::
  "'c ext \<Rightarrow> 'c Visualizer \<Rightarrow> globals \<Rightarrow> byte list \<Rightarrow> panic + (globals \<times> f64 list)" where
  "smooth_step ex v g pix =
     (let h = history_append (windowSize v) (pixs g) pix
      in case smooth ex h (length pix) of
           Inl e \<Rightarrow> Inl e
         | Inr pix3 \<Rightarrow> Inr (g\<lparr>pixs := h\<rparr>, pix3))"

section \<open>Segment distributor\<close>

text \<open>
  The conversion \<open>uint8(x)\<close> of a \<open>float64\<close>: the fraction is cut off towards zero; a
  value that is no \<open>uint8\<close> after that gives what the implementation gives.
\<close>

definition uint8_of :: "'c ext \<Rightarrow> f64 \<Rightarrow> byte" where
  "uint8_of ex x =
     (case x of
        Fin r \<Rightarrow>
          if - 1 < r \<and> r < 256 then word_of_int (if r < 0 then \<lceil>r\<rceil> else \<lfloor>r\<rfloor>)
          else uint8_other ex x
      | _ \<Rightarrow> uint8_other ex x)"

text \<open>
  The loop \<^verbatim>\<open>for i := 0; i < length; i += 4\<close> with \<^verbatim>\<open>offset := i\<close>: it copies
  \<open>pix3[i]\<close> to \<open>pix3[i+3]\<close> into the same four positions of \<open>pix4\<close>. An index beyond
  either slice panics.
\<close>

function fill :: "'c ext \<Rightarrow> f64 list \<Rightarrow> nat \<Rightarrow> nat \<Rightarrow> byte list \<Rightarrow> panic + byte list" where
  "fill ex pix3 len i pix4 =
     (if i < len then
        (if i + 3 < length pix3 \<and> i + 3 < length pix4
         then fill ex pix3 len (i + 4)
                (pix4[i := uint8_of ex (pix3 ! i),
                      i + 1 := uint8_of ex (pix3 ! (i + 1)),
                      i + 2 := uint8_of ex (pix3 ! (i + 2)),
                      i + 3 := uint8_of ex (pix3 ! (i + 3))])
         else Inl IndexOutOfRange)
      else Inr pix4)"
  by pat_completeness auto
termination
  by (relation "measure (\<lambda>(ex, pix3, len, i, pix4). len - i)") auto

text \<open>
  One turn of \<^verbatim>\<open>for _, seg := range v.segments\<close>. The terminal output for segment 0 reads
  \<open>pix\<close> inside its bounds and changes nothing, so it is left out.
\<close>

definition segment_pix :: "'c ext \<Rightarrow> f64 list \<Rightarrow> Segment \<Rightarrow> panic + OutSegment" where
  "segment_pix ex pix3 seg =
     (let len = Leds seg * 4
      in if len < 0 then Inl MakeLenOutOfRange
         else case fill ex pix3 (nat len) 0 (replicate (nat len) 0) of
                Inl e \<Rightarrow> Inl e
              | Inr pix4 \<Rightarrow> Inr \<lparr>SegId = Id seg, Pix = take (nat (Leds seg * 4)) pix4\<rparr>)"

definition distribute :: "'c ext \<Rightarrow> f64 list \<Rightarrow> Segment list \<Rightarrow> panic + OutSegment list" where
  "distribute ex pix3 segs = traverse (segment_pix ex pix3) segs"

section \<open>The processing call\<close>

text \<open>
  The body of \<open>process\<close> after the single-flight check. \<open>dur\<close> is the reading
  \<open>time.Since(now)\<close>. A panic ends the program, so nothing is returned with it.
\<close>

definition process_body ::
  "'c ext \<Rightarrow> 'c Visualizer \<Rightarrow> globals \<Rightarrow> f64 list \<Rightarrow> f64 \<Rightarrow> nat \<Rightarrow> panic + (globals \<times> UpdateEvent)" where
  "process_body ex v g samples peak dur =
     (case analyze ex (maxLedCount v) samples peak of
        Inl e \<Rightarrow> Inl e
      | Inr freqs \<Rightarrow>
          (case smooth_step ex v g (synthesize ex v peak freqs) of
             Inl e \<Rightarrow> Inl e
           | Inr (g1, pix3) \<Rightarrow>
               (case distribute ex pix3 (segments v) of
                  Inl e \<Rightarrow> Inl e
                | Inr segs \<Rightarrow>
                    Inr (g1\<lparr>it := it g1 + word_of_nat (length segs)\<rparr>,
                         \<lparr>Segments = segs, Duration = dur\<rparr>))))"

text \<open>
  \<open>process\<close>: under the mutex, return at once when \<open>v.processing\<close> is set, else set it;
  the deferred function clears it. The result is the \<open>Visualizer\<close> and the package-level
  state after the call and the event sent on \<open>v.events\<close>, if any.
\<close>

definition process ::
  "'c ext \<Rightarrow> 'c Visualizer \<Rightarrow> globals \<Rightarrow> f64 list \<Rightarrow> f64 \<Rightarrow> nat
     \<Rightarrow> panic + ('c Visualizer \<times> globals \<times> UpdateEvent option)" where
  "process ex v g samples peak dur =
     (if processing v then Inr (v, g, None)
      else case process_body ex (v\<lparr>processing := True\<rparr>) g samples peak dur of
             Inl e \<Rightarrow> Inl e
           | Inr (g1, ev) \<Rightarrow> Inr (v\<lparr>processing := False\<rparr>, g1, Some ev))"

section \<open>A model of the interpolation package\<close>

text \<open>
  \<open>piecewiselinear.Function.At\<close> belongs to the package
  \<open>github.com/sgreben/piecewiselinear\<close>, which is no part of the sources. The model below
  is the function that package documents: the value at \<open>x\<close> of the function through the
  points \<open>(X[k], Y[k])\<close>, linear between neighbours and 0 outside the domain. The segment is
  found by bisection for the first \<open>k\<close> with \<open>\<not> X[k] < x\<close>.
\<close>

function At_search :: "f64 list \<Rightarrow> f64 \<Rightarrow> nat \<Rightarrow> nat \<Rightarrow> nat" where
  "At_search X x i j =
     (if i < j then
        (let h = (i + j) div 2
         in if flt (X ! h) x then At_search X x (h + 1) j else At_search X x i h)
      else i)"
  by pat_completeness auto
termination
  by (relation "measure (\<lambda>(X, x, i, j). j - i)") auto

definition At :: "f64 list \<Rightarrow> f64 list \<Rightarrow> f64 \<Rightarrow> panic + f64" where
  "At X Y x =
     (let i = At_search X x 0 (length X)
      in if i = 0 then
           (if 0 < length X \<and> flt x (X ! 0) then Inr (Fin 0)
            else if 0 < length X \<and> feq x (X ! 0)
                 then (if 0 < length Y then Inr (Y ! 0) else Inl IndexOutOfRange)
            else Inr (Fin 0))
         else if i = length X then Inr (Fin 0)
         else if i < length Y then
           (let w = fdiv (fsub x (X ! (i - 1))) (fsub (X ! i) (X ! (i - 1)))
            in Inr (fadd (fmul (fsub (Fin 1) w) (Y ! (i - 1))) (fmul w (Y ! i))))
         else Inl IndexOutOfRange)"

text \<open>What \<open>cmplx.Abs\<close> returns on a finite coefficient: a finite number, not negative.\<close>

definition is_magnitude :: "f64 \<Rightarrow> bool" where
  "is_magnitude x = (case x of Fin r \<Rightarrow> 0 \<le> r | _ \<Rightarrow> False)"

text \<open>
  What the analyzer needs of the interpolation, whatever its implementation: on the
  warped axis of the right length, the value at any point lies in every interval that
  holds 0 and all the samples \<open>Y\<close>.
\<close>

definition in_range :: "real \<Rightarrow> real \<Rightarrow> f64 \<Rightarrow> bool" where
  "in_range lo hi x = (case x of Fin r \<Rightarrow> lo \<le> r \<and> r \<le> hi | _ \<Rightarrow> False)"

definition interp_bounded :: "(f64 list \<Rightarrow> f64 list \<Rightarrow> f64 \<Rightarrow> panic + f64) \<Rightarrow> bool" where
  "interp_bounded f \<longleftrightarrow>
     (\<forall>X Y x lo hi.
        lo \<le> 0 \<and> 0 \<le> hi \<and> SpanLog (Fin 0) (Fin 1) (int (length Y)) = Inr X
          \<and> list_all (in_range lo hi) Y
        \<longrightarrow> (\<exists>y. f X Y x = Inr y \<and> in_range lo hi y))"

section \<open>Stand-ins for the other packages, for the examples\<close>

fun fabs :: "f64 \<Rightarrow> f64" where
  "fabs (Fin a) = Fin \<bar>a\<bar>"
| "fabs NaN = NaN"
| "fabs _ = PInf"

text \<open>
  As many magnitudes as the transform keeps for \<open>n\<close> samples (\<open>n/2 + 1\<close> coefficients, the
  first half of them), a grey scale with 16-bit components for the colours, and 0 for the
  bytes Go leaves open and for the values that rounding decides.
\<close>

definition grey :: "f64 \<Rightarrow> 32 word" where
  "grey v = (case v of Fin r \<Rightarrow> word_of_int \<lfloor>r * 65535 + 1 / 2\<rfloor> | _ \<Rightarrow> 0)"

definition demo_ext :: "f64 ext" where
  "demo_ext =
     \<lparr>fft_abs = (\<lambda>samples. map fabs (take ((length samples div 2 + 1) div 2) samples)),
      interp = At,
      hsv = (\<lambda>c. (Fin 0, Fin 0, c)),
      hsv_rgba = (\<lambda>h s v. (grey v, grey v, grey v)),
      uint8_other = (\<lambda>x. 0),
      smooth_rounded = (\<lambda>h j. Fin 0)\<rparr>"

definition demo_Visualizer :: "f64 Visualizer" where
  "demo_Visualizer =
     (new_Visualizer (\<lambda>x. x))
       \<lparr>segments := [\<lparr>Id = 0, Leds = 1\<rparr>, \<lparr>Id = 1, Leds = 2\<rparr>], maxLedCount := 2, windowSize := 2\<rparr>"

text \<open>
  For the examples: a smoothed frame whose value at byte position \<open>k\<close> is \<open>k\<close>, and the
  bytes \<open>a, a + 1, \<dots>, b - 1\<close>.
\<close>

definition ramp_frame :: "nat \<Rightarrow> f64 list" where
  "ramp_frame n = map (\<lambda>k. Fin (real k)) [0..<n]"

definition byte_ramp :: "nat \<Rightarrow> nat \<Rightarrow> byte list" where
  "byte_ramp a b = map word_of_nat [a..<b]"

text \<open>
  The weighted mean of two frames with the weights \<open>1 + 4\<close> and \<open>4 + 4\<close> that a history of
  length 2 gives.
\<close>

definition blend2 :: "byte list \<Rightarrow> byte list \<Rightarrow> f64 list" where
  "blend2 p1 p2 = map (\<lambda>(a, b). Fin ((5 * real (unat a) + 8 * real (unat b)) / 13)) (zip p1 p2)"

text \<open>A frame read as numbers: what the smoother returns when it changes nothing.\<close>

definition frame_values :: "byte list \<Rightarrow> f64 list" where
  "frame_values p = map (\<lambda>b. Fin (real (unat b))) p"

section \<open>Properties of the frame decoder\<close>

lemma readInt32_four:
  "readInt32 [b0, b1, b2, b3] =
     Inr (ucast b0 OR push_bit 8 (ucast b1) OR push_bit 16 (ucast b2) OR push_bit 24 (ucast b3))"
  by (simp add: readInt32_def)

lemma decode_loop_length:
  "length buf = 4 * k \<Longrightarrow> \<exists>s. decode_loop buf acc = Inr (acc @ s) \<and> length s = k"
proof (induction k arbitrary: buf acc)
  case 0
  then show ?case by simp
next
  case (Suc k)
  then obtain b0 b1 b2 b3 rest where buf: "buf = b0 # b1 # b2 # b3 # rest"
    by (cases buf; simp; rename_tac x xs; case_tac xs; simp; rename_tac y ys; case_tac ys; simp;
        rename_tac z zs; case_tac zs; simp)
  with Suc.prems have "length rest = 4 * k" by simp
  from Suc.IH [OF this]
  obtain s where "decode_loop rest (acc @ [Fin (real_of_int (sint (ucast b0 OR push_bit 8 (ucast b1)
        OR push_bit 16 (ucast b2) OR push_bit 24 (ucast b3) :: 32 word)))])
      = Inr ((acc @ [Fin (real_of_int (sint (ucast b0 OR push_bit 8 (ucast b1)
        OR push_bit 16 (ucast b2) OR push_bit 24 (ucast b3) :: 32 word)))]) @ s)" and "length s = k"
    by blast
  then show ?case
    by (simp add: buf readInt32_four)
qed

text \<open>
  On a buffer of \<open>4k\<close> bytes the decoder returns \<open>2k\<close> samples, the first \<open>k\<close> of them the
  zeros that \<open>make\<close> put there.
\<close>

lemma decode_length:
  "length buf = 4 * k \<Longrightarrow>
     \<exists>s. decode buf = Inr (replicate k (Fin 0) @ s) \<and> length s = k"
  using decode_loop_length [of buf k "replicate k (Fin 0)"] by (simp add: decode_def)

text \<open>
  C2. The claim is that a buffer of \<open>4k\<close> bytes decodes to exactly \<open>k\<close> samples, sample \<open>i\<close>
  being the little-endian signed 32-bit integer of bytes \<open>[4i, 4i+4)\<close>. On the four bytes
  \<open>01 00 00 00\<close> (\<open>k = 1\<close>, the integer 1) the decoder returns two samples, and the first
  is 0.
\<close>

theorem decode_one_word: "decode [1, 0, 0, 0] = Inr [Fin 0, Fin 1]"
  by (simp add: decode_def readInt32_def)

section \<open>Properties of the lifecycle\<close>

text \<open>
  C8. The claim is that \<open>Stop\<close> on a pipeline that is not running returns, without error
  and without blocking. \<open>Stop\<close> guards the call of \<open>v.cancel\<close> with a nil test, and then
  receives from \<open>v.done\<close> in every case: on a \<open>Visualizer\<close> that was never started this is
  the nil channel, and after a completed \<open>Stop\<close> the only sender has returned. Neither call
  returns.
\<close>

theorem Stop_not_running_blocks:
  "Stop (new_Visualizer gr) = None
   \<and> Stop (Start (new_Visualizer gr)) = Some ((new_Visualizer gr)\<lparr>done_ch := Chan 0\<rparr>)
   \<and> Stop ((new_Visualizer gr)\<lparr>done_ch := Chan 0\<rparr>) = None"
  by (simp add: Stop_def new_Visualizer_def Start_def)

section \<open>Properties of the single-flight guard\<close>

text \<open>
  C4. A call of \<open>process\<close> that finds \<open>v.processing\<close> set returns normally, sends no event
  and leaves the \<open>Visualizer\<close> and the package-level state, the history with it, as they
  were.
\<close>

theorem single_flight_skip:
  "processing v \<Longrightarrow> process ex v g samples peak dur = Inr (v, g, None)"
  by (simp add: process_def)

theorem single_flight_skip_witness:
  "processing (demo_Visualizer\<lparr>processing := True\<rparr>)
   \<and> process demo_ext (demo_Visualizer\<lparr>processing := True\<rparr>) \<lparr>pixs = [[1, 2, 3, 255]], it = 0\<rparr>
        [Fin 1, Fin 2] (Fin 1) 0
      = Inr (demo_Visualizer\<lparr>processing := True\<rparr>, \<lparr>pixs = [[1, 2, 3, 255]], it = 0\<rparr>, None)"
  using single_flight_skip [of "demo_Visualizer\<lparr>processing := True\<rparr>" demo_ext
      "\<lparr>pixs = [[1, 2, 3, 255]], it = 0\<rparr>" "[Fin 1, Fin 2]" "Fin 1" 0]
  by simp

section \<open>Properties of the history\<close>

lemma history_append_drop:
  "0 \<le> ws \<Longrightarrow> int (length h) \<le> ws \<Longrightarrow>
     history_append ws h pix = drop (length (h @ [pix]) - nat ws) (h @ [pix])"
proof (cases "ws < int (length (h @ [pix]))")
  case True
  assume a: "0 \<le> ws" "int (length h) \<le> ws"
  with True have "nat ws = length h" by simp
  with True show ?thesis by (simp add: history_append_def Let_def)
next
  case False
  then have "length (h @ [pix]) \<le> nat ws" by simp
  with False show ?thesis by (simp add: history_append_def Let_def)
qed

lemma history_append_length:
  "0 \<le> ws \<Longrightarrow> int (length h) \<le> ws \<Longrightarrow> int (length (history_append ws h pix)) \<le> ws"
  by (auto simp: history_append_def Let_def)

lemma history_foldl:
  "0 \<le> ws \<Longrightarrow> int (length h) \<le> ws \<Longrightarrow>
     int (length (foldl (history_append ws) h fs)) \<le> ws \<and>
     foldl (history_append ws) h fs = drop (length (h @ fs) - nat ws) (h @ fs)"
proof (induction fs arbitrary: h)
  case Nil
  then show ?case by simp
next
  case (Cons f fs)
  let ?h1 = "history_append ws h f"
  have len: "int (length ?h1) \<le> ws"
    using Cons.prems by (rule history_append_length)
  note IH0 = Cons.IH [OF Cons.prems(1) len]
  have IH: "int (length (foldl (history_append ws) ?h1 fs)) \<le> ws"
    "foldl (history_append ws) ?h1 fs = drop (length (?h1 @ fs) - nat ws) (?h1 @ fs)"
    using IH0 by blast+
  have eq: "drop (length (?h1 @ fs) - nat ws) (?h1 @ fs)
      = drop (length (h @ f # fs) - nat ws) (h @ f # fs)"
  proof (cases "int (length (h @ [f])) > ws")
    case True
    then have e: "?h1 = drop 1 (h @ [f])" by (simp add: history_append_def Let_def)
    from True Cons.prems have l: "length h = nat ws" by simp
    have A: "length (drop 1 (h @ [f]) @ fs) - nat ws = length fs" using l by simp
    have B: "length (h @ f # fs) - nat ws = length fs + 1" using l by simp
    have "h @ f # fs = (h @ [f]) @ fs" by simp
    then have C: "drop (length fs + 1) (h @ f # fs) = drop (length fs) (drop 1 ((h @ [f]) @ fs))"
      by (simp only: drop_drop)
    have D: "drop 1 ((h @ [f]) @ fs) = drop 1 (h @ [f]) @ fs" by (cases h) simp_all
    show ?thesis unfolding e A B C D ..
  next
    case False
    then have e: "?h1 = h @ [f]" by (simp add: history_append_def Let_def)
    show ?thesis unfolding e by simp
  qed
  show ?case
  proof (intro conjI)
    show "int (length (foldl (history_append ws) h (f # fs))) \<le> ws"
      using IH(1) by (simp only: foldl.simps)
    show "foldl (history_append ws) h (f # fs) = drop (length (h @ f # fs) - nat ws) (h @ f # fs)"
      using IH(2) eq by (simp only: foldl.simps)
  qed
qed

text \<open>
  C6. With a window size that is not negative, and from a history within it (the empty
  one that the program starts with), the history after any sequence of appends holds at
  most \<open>windowSize\<close> frames, and they are the last ones appended, in order: once the window
  is full each append drops the oldest frame.
\<close>

theorem history_bounded_fifo:
  assumes "0 \<le> ws" and "int (length h) \<le> ws"
  shows "int (length (foldl (history_append ws) h fs)) \<le> ws
    \<and> foldl (history_append ws) h fs = drop (length (h @ fs) - nat ws) (h @ fs)"
  using assms by (rule history_foldl)

theorem history_bounded_fifo_witness:
  "(0::int) \<le> 2 \<and> int (length ([] :: byte list list)) \<le> 2
   \<and> foldl (history_append 2) [] [[1], [2], [3 :: byte]] = [[2], [3]]"
  using history_bounded_fifo [of 2 "[]" "[[1], [2], [3 :: byte]]"] by simp

section \<open>Properties of the temporal smoother\<close>

lemma foldl_fadd_Fin: "foldl fadd (Fin a) (map Fin rs) = Fin (a + sum_list rs)"
  by (induction rs arbitrary: a) (simp_all add: add.assoc)

lemma weights_map: "weights L = map Fin (map (\<lambda>i. real (weight L i)) [0..<L])"
  by (simp add: weights_def)

lemma weightsTotal_Fin: "weightsTotal L = Fin (sum_list (map (\<lambda>i. real (weight L i)) [0..<L]))"
  unfolding weightsTotal_def weights_map foldl_fadd_Fin by simp

lemma weight_pos: "0 < weight L i"
  by (simp add: weight_def)



lemma sum_weights_pos: "0 < L \<Longrightarrow> 0 < sum_list (map (\<lambda>i. real (weight L i)) [0..<L])"
proof -
  assume "0 < L"
  then have "[0..<L] = 0 # [1..<L]" by (simp add: upt_conv_Cons)
  then have "sum_list (map (\<lambda>i. real (weight L i)) [0..<L])
      = real (weight L 0) + sum_list (map (\<lambda>i. real (weight L i)) [1..<L])" by simp
  moreover have "0 \<le> sum_list (map (\<lambda>i. real (weight L i)) [1..<L])"
    by (rule sum_list_nonneg) auto
  moreover have "0 < real (weight L 0)" using weight_pos by simp
  ultimately show ?thesis by linarith
qed

text \<open>One frame added to sums that are all the frame's bytes times \<open>s\<close>.\<close>

lemma add_frame_const:
  "length pre = j \<Longrightarrow>
   add_frame (Fin r) ps j (pre @ map (\<lambda>b. Fin (real (unat b) * s)) ps @ post)
     = Inr (pre @ map (\<lambda>b. Fin (real (unat b) * (s + r))) ps @ post)"
proof (induction ps arbitrary: pre j)
  case Nil
  then show ?case by simp
next
  case (Cons p ps)
  have "length (pre @ [Fin (real (unat p) * (s + r))]) = Suc j" using Cons.prems by simp
  from Cons.IH [OF this] Cons.prems show ?case
    by (simp add: nth_append list_update_append distrib_left)
qed

lemma add_frames_const:
  "length rs = length fs \<Longrightarrow> \<forall>f\<in>set fs. f = frame \<Longrightarrow>
   add_frames (zip (map Fin rs) fs) (map (\<lambda>b. Fin (real (unat b) * s)) frame)
     = Inr (map (\<lambda>b. Fin (real (unat b) * (s + sum_list rs))) frame)"
proof (induction rs fs arbitrary: s rule: list_induct2)
  case Nil
  then show ?case by simp
next
  case (Cons r rs f fs)
  then have f: "f = frame" by simp
  have step: "add_frame (Fin r) frame 0 (map (\<lambda>b. Fin (real (unat b) * s)) frame)
      = Inr (map (\<lambda>b. Fin (real (unat b) * (s + r))) frame)"
    using add_frame_const [of "[]" 0 r frame s "[]"] by simp
  from Cons have "\<forall>f\<in>set fs. f = frame" by simp
  from Cons.IH [OF this, of "s + r"] step show ?case
    by (simp add: f add.assoc)
qed

text \<open>The sum of the weights in closed form, and the history lengths with exact sums.\<close>

lemma weight_sum_upto:
  "6 * sum_list (map (weight L) [0..<n]) = n * (n + 1) * (2 * n + 1) + 6 * n * (L * L)"
  by (induction n) (simp_all add: weight_def algebra_simps)

lemma exact_sums_closed:
  "exact_sums L \<longleftrightarrow> 255 * (L * (L + 1) * (2 * L + 1) + 6 * L * (L * L)) < 6 * 2 ^ 53"
proof -
  have "exact_sums L \<longleftrightarrow> 255 * (6 * weight_sum L) < 6 * 2 ^ 53"
    by (simp add: exact_sums_def)
  then show ?thesis by (simp only: weight_sum_def weight_sum_upto)
qed

lemma exact_sums_iff: "exact_sums L \<longleftrightarrow> L \<le> 29810"
proof
  assume "L \<le> 29810"
  then have "L * (L + 1) * (2 * L + 1) + 6 * L * (L * L)
      \<le> 29810 * (29810 + 1) * (2 * 29810 + 1) + 6 * 29810 * (29810 * 29810)"
    by (intro add_mono mult_le_mono) simp_all
  then show "exact_sums L" unfolding exact_sums_closed by simp
next
  assume e: "exact_sums L"
  show "L \<le> 29810"
  proof (rule ccontr)
    assume "\<not> L \<le> 29810"
    then have "29811 \<le> L" by simp
    then have "29811 * (29811 + 1) * (2 * 29811 + 1) + 6 * 29811 * (29811 * 29811)
        \<le> L * (L + 1) * (2 * L + 1) + 6 * L * (L * L)"
      by (intro add_mono mult_le_mono) simp_all
    with e show False unfolding exact_sums_closed by simp
  qed
qed

lemma smooth_const:
  assumes "0 < L" and "exact_sums L"
  shows "smooth ex (replicate L frame) (length frame) = Inr (frame_values frame)"
proof -
  let ?rs = "map (\<lambda>i. real (weight L i)) [0..<L]"
  have z: "replicate (length frame) (Fin 0) = map (\<lambda>b. Fin (real (unat b) * 0)) frame"
    by (simp add: map_replicate_const)
  have "add_frames (zip (map Fin ?rs) (replicate L frame)) (map (\<lambda>b. Fin (real (unat b) * 0)) frame)
      = Inr (map (\<lambda>b. Fin (real (unat b) * (0 + sum_list ?rs))) frame)"
    by (rule add_frames_const) simp_all
  moreover have "0 < sum_list ?rs" using assms(1) by (rule sum_weights_pos)
  ultimately show ?thesis
    unfolding smooth_def z frame_values_def using assms(2)
    by (simp add: weights_map weightsTotal_Fin)
qed

lemma uint8_of_nat: "n < 256 \<Longrightarrow> uint8_of ex (Fin (real n)) = of_nat n"
  by (simp add: uint8_of_def)





section \<open>Properties of the shared history\<close>

lemma add_frame_zip:
  "length as = length ps \<Longrightarrow> length pre = j \<Longrightarrow>
   add_frame (Fin r) ps j (pre @ map Fin as @ post)
     = Inr (pre @ map (\<lambda>(a, p). Fin (a + real (unat p) * r)) (zip as ps) @ post)"
proof (induction as ps arbitrary: pre j rule: list_induct2)
  case Nil
  then show ?case by simp
next
  case (Cons a as p ps)
  have "length (pre @ [Fin (a + real (unat p) * r)]) = Suc j" using Cons.prems by simp
  from Cons.IH [OF this] Cons.prems show ?case
    by (simp add: nth_append list_update_append)
qed

lemma weights_2: "weights (Suc (Suc 0)) = [Fin 5, Fin 8]"
  by (simp add: weights_def weight_def upt_rec)

lemma weightsTotal_2: "weightsTotal (Suc (Suc 0)) = Fin 13"
  by (simp add: weightsTotal_def weights_2)

lemma smooth_two:
  assumes "length p1 = length p2"
  shows "smooth ex [p1, p2] (length p2) = Inr (blend2 p1 p2)"
proof -
  have z: "replicate (length p2) (Fin 0) = map Fin (replicate (length p1) 0)"
    using assms by simp
  have s1: "add_frame (Fin 5) p1 0 (map Fin (replicate (length p1) 0))
      = Inr (map Fin (map (\<lambda>p. real (unat p) * 5) p1))"
    using add_frame_zip [of "replicate (length p1) 0" p1 "[]" 0 5 "[]"]
    by (simp add: zip_replicate1 o_def)
  have s2: "add_frame (Fin 8) p2 0 (map Fin (map (\<lambda>p. real (unat p) * 5) p1))
      = Inr (map (\<lambda>(a, b). Fin (real (unat a) * 5 + real (unat b) * 8)) (zip p1 p2))"
    using add_frame_zip [of "map (\<lambda>p. real (unat p) * 5) p1" p2 "[]" 0 8 "[]"] assms
    by (simp add: zip_map1 split_def)
  show ?thesis
    unfolding smooth_def blend2_def using s1 s2
    by (simp add: weights_2 weightsTotal_2 z split_def mult.commute exact_sums_iff)
qed

lemma smooth_one: "smooth ex [p] (length p) = Inr (frame_values p)"
  using smooth_const [where L = 1 and ex = ex and frame = p] by (simp add: exact_sums_iff)

lemma blend2_differs:
  assumes "length p1 = length p2" "p1 \<noteq> p2"
  shows "blend2 p1 p2 \<noteq> frame_values p2"
proof -
  from assms obtain k where k: "k < length p1" "p1 ! k \<noteq> p2 ! k"
    using nth_equalityI by blast
  then have ne: "unat (p1 ! k) \<noteq> unat (p2 ! k)" by (simp add: word_unat_eq_iff)
  have n: "a \<noteq> b \<Longrightarrow> (5 * real a + 8 * real b) / 13 \<noteq> real b" for a b :: nat
    by (simp add: field_simps)
  have "(5 * real (unat (p1 ! k)) + 8 * real (unat (p2 ! k))) / 13 \<noteq> real (unat (p2 ! k))"
    by (rule n [OF ne])
  then have "blend2 p1 p2 ! k \<noteq> frame_values p2 ! k"
    using k(1) assms(1) by (simp add: blend2_def frame_values_def)
  then show ?thesis by metis
qed

lemma smooth_step_shared:
  assumes "1 \<le> windowSize v1" "2 \<le> windowSize v2" "length p1 = length p2" "pixs g = []"
  shows "smooth_step ex v1 g p1 = Inr (g\<lparr>pixs := [p1]\<rparr>, frame_values p1)
    \<and> smooth_step ex v2 (g\<lparr>pixs := [p1]\<rparr>) p2 = Inr (g\<lparr>pixs := [p1, p2]\<rparr>, blend2 p1 p2)
    \<and> smooth_step ex v2 g p2 = Inr (g\<lparr>pixs := [p2]\<rparr>, frame_values p2)
    \<and> (p1 \<noteq> p2 \<longrightarrow> blend2 p1 p2 \<noteq> frame_values p2)"
  using assms smooth_one [where ex = ex and p = p1] smooth_one [where ex = ex and p = p2]
    smooth_two [where ex = ex and ?p1.0 = p1 and ?p2.0 = p2]
    blend2_differs [of p1 p2]
  by (simp add: smooth_step_def history_append_def)

text \<open>
  C10. The history is the package-level variable \<open>pixs\<close>, read and written by the
  smoothing step of every \<open>Visualizer\<close>. From an empty history, let \<open>v1\<close> (window at least
  1) process the frame \<open>p1\<close> and then another \<open>Visualizer\<close> \<open>v2\<close> (window at least 2) the
  frame \<open>p2\<close> of the same length: the step of \<open>v2\<close> finds \<open>p1\<close> in the history and returns
  the blend of \<open>p1\<close> and \<open>p2\<close>, where on its own it would return \<open>p2\<close>; the two differ
  whenever \<open>p1\<close> and \<open>p2\<close> do.
\<close>

theorem shared_history:
  assumes "1 \<le> windowSize v1" "2 \<le> windowSize v2" "length p1 = length p2" "pixs g = []"
  shows "smooth_step ex v1 g p1 = Inr (g\<lparr>pixs := [p1]\<rparr>, frame_values p1)
    \<and> smooth_step ex v2 (g\<lparr>pixs := [p1]\<rparr>) p2 = Inr (g\<lparr>pixs := [p1, p2]\<rparr>, blend2 p1 p2)
    \<and> smooth_step ex v2 g p2 = Inr (g\<lparr>pixs := [p2]\<rparr>, frame_values p2)
    \<and> (p1 \<noteq> p2 \<longrightarrow> blend2 p1 p2 \<noteq> frame_values p2)"
  using assms by (rule smooth_step_shared)

theorem shared_history_witness:
  "1 \<le> windowSize (demo_Visualizer\<lparr>windowSize := 1\<rparr>) \<and> 2 \<le> windowSize demo_Visualizer
   \<and> length [26, 0 :: byte] = length [0, 13 :: byte] \<and> pixs \<lparr>pixs = [], it = 0\<rparr> = []
   \<and> smooth_step demo_ext (demo_Visualizer\<lparr>windowSize := 1\<rparr>) \<lparr>pixs = [], it = 0\<rparr> [26, 0]
       = Inr (\<lparr>pixs = [[26, 0]], it = 0\<rparr>, [Fin 26, Fin 0])
   \<and> smooth_step demo_ext demo_Visualizer \<lparr>pixs = [[26, 0]], it = 0\<rparr> [0, 13]
       = Inr (\<lparr>pixs = [[26, 0], [0, 13]], it = 0\<rparr>, [Fin 10, Fin 8])
   \<and> smooth_step demo_ext demo_Visualizer \<lparr>pixs = [], it = 0\<rparr> [0, 13]
       = Inr (\<lparr>pixs = [[0, 13]], it = 0\<rparr>, [Fin 0, Fin 13])"
  using shared_history [where ?v1.0 = "demo_Visualizer\<lparr>windowSize := 1\<rparr>" and ?v2.0 = demo_Visualizer
      and ?p1.0 = "[26, 0]" and ?p2.0 = "[0, 13]" and g = "\<lparr>pixs = [], it = 0\<rparr>" and ex = demo_ext]
  by (simp add: demo_Visualizer_def new_Visualizer_def blend2_def frame_values_def)

section \<open>Properties of the segment distributor\<close>

declare fill.simps [simp del]

text \<open>
  The copying loop from position \<open>i\<close> on: positions below \<open>i\<close> keep what \<open>pix4\<close> holds, all
  others get the converted value of \<open>pix3\<close> at the same position.
\<close>

lemma fill_nth:
  "i mod 4 = 0 \<Longrightarrow> len mod 4 = 0 \<Longrightarrow> len \<le> length pix3 \<Longrightarrow> length pix4 = len \<Longrightarrow>
   \<exists>r. fill ex pix3 len i pix4 = Inr r \<and> length r = len \<and>
       (\<forall>k<len. r ! k = (if k < i then pix4 ! k else uint8_of ex (pix3 ! k)))"
proof (induction ex pix3 len i pix4 rule: fill.induct)
  case (1 ex pix3 len i pix4)
  show ?case
  proof (cases "i < len")
    case False
    then show ?thesis by (simp add: fill.simps 1)
  next
    case True
    with "1.prems" have i4: "i + 4 \<le> len" by presburger
    let ?p = "pix4[i := uint8_of ex (pix3 ! i), i + 1 := uint8_of ex (pix3 ! (i + 1)),
                   i + 2 := uint8_of ex (pix3 ! (i + 2)), i + 3 := uint8_of ex (pix3 ! (i + 3))]"
    have ok: "i + 3 < length pix3 \<and> i + 3 < length pix4" using i4 "1.prems" by simp
    have m: "(i + 4) mod 4 = 0" using "1.prems" by presburger
    have l: "length ?p = len" using "1.prems" by simp
    from "1.IH" [OF True ok m "1.prems"(2) "1.prems"(3) l]
    obtain r where r: "fill ex pix3 len (i + 4) ?p = Inr r" "length r = len"
      "\<forall>k<len. r ! k = (if k < i + 4 then ?p ! k else uint8_of ex (pix3 ! k))"
      by blast
    have "fill ex pix3 len i pix4 = Inr r"
      using True ok r(1) by (subst fill.simps) simp
    moreover have "\<forall>k<len. r ! k = (if k < i then pix4 ! k else uint8_of ex (pix3 ! k))"
    proof (intro allI impI)
      fix k assume k: "k < len"
      consider "k < i" | "k = i" | "k = i + 1" | "k = i + 2" | "k = i + 3" | "i + 4 \<le> k"
        by linarith
      then show "r ! k = (if k < i then pix4 ! k else uint8_of ex (pix3 ! k))"
        using r(3) k "1.prems"(4) i4 by cases (simp_all)
    qed
    ultimately show ?thesis using r(2) by blast
  qed
qed

lemma fill_zero:
  assumes "len mod 4 = 0" "len \<le> length pix3"
  shows "fill ex pix3 len 0 (replicate len 0) = Inr (map (uint8_of ex) (take len pix3))"
proof -
  from fill_nth [of 0 len pix3 "replicate len 0" ex] assms
  obtain r where r: "fill ex pix3 len 0 (replicate len 0) = Inr r" "length r = len"
    "\<forall>k<len. r ! k = uint8_of ex (pix3 ! k)" by auto
  have "r = map (uint8_of ex) (take len pix3)"
    using r(2,3) assms(2) by (intro nth_equalityI) simp_all
  with r(1) show ?thesis by simp
qed

lemma segment_pix_prefix:
  assumes "0 \<le> Leds seg" "nat (Leds seg * 4) \<le> length pix3"
  shows "segment_pix ex pix3 seg
     = Inr \<lparr>SegId = Id seg, Pix = map (uint8_of ex) (take (nat (Leds seg * 4)) pix3)\<rparr>"
proof -
  have m: "nat (Leds seg * 4) mod 4 = 0" using assms(1) by (simp add: nat_mult_distrib)
  have "\<not> Leds seg * 4 < 0" using assms(1) by simp
  then show ?thesis
    unfolding segment_pix_def Let_def using fill_zero [OF m assms(2), of ex] by simp
qed

lemma traverse_map:
  "\<forall>x\<in>set xs. f x = Inr (g x) \<Longrightarrow> traverse f xs = Inr (map g xs)"
  by (induction xs) simp_all

lemma distribute_prefix_lemma:
  assumes "list_all (\<lambda>seg. 0 \<le> Leds seg \<and> nat (Leds seg * 4) \<le> length pix3) segs"
  shows "distribute ex pix3 segs
     = Inr (map (\<lambda>seg. \<lparr>SegId = Id seg,
                         Pix = map (uint8_of ex) (take (nat (Leds seg * 4)) pix3)\<rparr>) segs)"
  unfolding distribute_def using assms
  by (intro traverse_map) (simp add: segment_pix_prefix list_all_iff)

lemma take_ramp_frame:
  assumes "n \<le> m" "m \<le> 256"
  shows "map (uint8_of ex) (take n (ramp_frame m)) = byte_ramp 0 n"
proof -
  have "take n (ramp_frame m) = map (\<lambda>k. Fin (real k)) [0..<n]"
    using assms(1) by (simp add: ramp_frame_def take_map min_def)
  moreover have "map (uint8_of ex) (map (\<lambda>k. Fin (real k)) [0..<n]) = map word_of_nat [0..<n]"
    using assms by (simp add: uint8_of_nat)
  ultimately show ?thesis by (simp add: byte_ramp_def)
qed

text \<open>
  C1, as the spec states it. For the segments \<open>[{0,10},{1,20}]\<close> and a smoothed frame of 30
  LEDs (120 bytes, byte \<open>k\<close> at position \<open>k\<close>) segment 1 does not receive the bytes
  \<open>[40,120)\<close>: it receives the bytes \<open>[0,80)\<close>, since \<open>offset := i\<close> starts every segment at
  the beginning of the frame.
\<close>

theorem distribute_offset_counterexample:
  "distribute demo_ext (ramp_frame 120) [\<lparr>Id = 0, Leds = 10\<rparr>, \<lparr>Id = 1, Leds = 20\<rparr>]
     = Inr [\<lparr>SegId = 0, Pix = byte_ramp 0 40\<rparr>, \<lparr>SegId = 1, Pix = byte_ramp 0 80\<rparr>]
   \<and> byte_ramp 0 80 \<noteq> byte_ramp 40 120"
proof
  have "length (ramp_frame 120) = 120" by (simp add: ramp_frame_def)
  then show "distribute demo_ext (ramp_frame 120) [\<lparr>Id = 0, Leds = 10\<rparr>, \<lparr>Id = 1, Leds = 20\<rparr>]
     = Inr [\<lparr>SegId = 0, Pix = byte_ramp 0 40\<rparr>, \<lparr>SegId = 1, Pix = byte_ramp 0 80\<rparr>]"
    using distribute_prefix_lemma [of "ramp_frame 120" "[\<lparr>Id = 0, Leds = 10\<rparr>, \<lparr>Id = 1, Leds = 20\<rparr>]"
        demo_ext]
    by (simp add: take_ramp_frame)
  have "byte_ramp 0 80 ! 0 = 0" "byte_ramp 40 120 ! 0 = 40"
    by (simp_all add: byte_ramp_def)
  then show "byte_ramp 0 80 \<noteq> byte_ramp 40 120" by auto
qed

text \<open>
  C1, amended. When no segment has a negative LED count or more LEDs than the smoothed
  frame, the distributor gives each segment, in declared order, its id and the first
  \<open>leds * 4\<close> values of the smoothed frame, each converted to a byte: every segment gets
  the range \<open>[0, leds*4)\<close>.
\<close>

theorem distribute_prefix:
  assumes "list_all (\<lambda>seg. 0 \<le> Leds seg \<and> nat (Leds seg * 4) \<le> length pix3) segs"
  shows "distribute ex pix3 segs
     = Inr (map (\<lambda>seg. \<lparr>SegId = Id seg,
                         Pix = map (uint8_of ex) (take (nat (Leds seg * 4)) pix3)\<rparr>) segs)"
  using assms by (rule distribute_prefix_lemma)

theorem distribute_prefix_witness:
  "list_all (\<lambda>seg. 0 \<le> Leds seg \<and> nat (Leds seg * 4) \<le>
       length [Fin 0, Fin 1, Fin 2, Fin 3, Fin 4, Fin 5, Fin 6, Fin 7, Fin 8, Fin 9, Fin 10, Fin 11])
     [\<lparr>Id = 0, Leds = 1\<rparr>, \<lparr>Id = 1, Leds = 2\<rparr>]
   \<and> distribute demo_ext
        [Fin 0, Fin 1, Fin 2, Fin 3, Fin 4, Fin 5, Fin 6, Fin 7, Fin 8, Fin 9, Fin 10, Fin 11]
        [\<lparr>Id = 0, Leds = 1\<rparr>, \<lparr>Id = 1, Leds = 2\<rparr>]
      = Inr [\<lparr>SegId = 0, Pix = [0, 1, 2, 3]\<rparr>, \<lparr>SegId = 1, Pix = [0, 1, 2, 3, 4, 5, 6, 7]\<rparr>]"
  using distribute_prefix [of
      "[Fin 0, Fin 1, Fin 2, Fin 3, Fin 4, Fin 5, Fin 6, Fin 7, Fin 8, Fin 9, Fin 10, Fin 11]"
      "[\<lparr>Id = 0, Leds = 1\<rparr>, \<lparr>Id = 1, Leds = 2\<rparr>]" demo_ext]
  by (simp add: uint8_of_def)

section \<open>Properties of the warped axis\<close>

text \<open>
  C9. The claim is that the axis for a magnitude sequence of length 1 is built without a
  division by zero, the divisor \<open>count - 1\<close> being guarded. \<open>SpanLog\<close> has no such guard:
  for \<open>nPoints = 1\<close> it divides \<open>float64(0)\<close> by \<open>float64(0)\<close>, and the axis is the single
  value \<open>NaN\<close>.
\<close>

theorem SpanLog_single_point: "SpanLog (Fin 0) (Fin 1) 1 = Inr [NaN]"
  by (simp add: SpanLog_def fmin_def fmax_def fsub_def)

section \<open>Properties of the interpolation model\<close>

text \<open>
  The bisection: when no comparison succeeds it ends at the lower bound, when all
  succeed at the upper one, and on a sorted axis at the first point that is not below
  \<open>x\<close>.
\<close>

declare At_search.simps [simp del]

lemma At_search_all_false:
  "\<forall>h<j. \<not> flt (X ! h) x \<Longrightarrow> At_search X x i j = i"
proof (induction "j - i" arbitrary: j rule: less_induct)
  case less
  show ?case
  proof (cases "i < j")
    case False
    then show ?thesis by (subst At_search.simps) simp
  next
    case True
    let ?h = "(i + j) div 2"
    have h: "i \<le> ?h" "?h < j" using True by simp_all
    then have nf: "\<not> flt (X ! ?h) x" using less.prems by simp
    have "At_search X x i ?h = i"
      using h less.prems by (intro less.hyps) auto
    then show ?thesis using True nf by (subst At_search.simps) (simp add: Let_def)
  qed
qed

lemma At_search_all_true:
  "\<forall>h<j. flt (X ! h) x \<Longrightarrow> i \<le> j \<Longrightarrow> At_search X x i j = j"
proof (induction "j - i" arbitrary: i rule: less_induct)
  case less
  show ?case
  proof (cases "i < j")
    case False
    with less.prems show ?thesis by (subst At_search.simps) simp
  next
    case True
    let ?h = "(i + j) div 2"
    have h: "i \<le> ?h" "?h < j" using True by simp_all
    then have t: "flt (X ! ?h) x" using less.prems by simp
    have "At_search X x (?h + 1) j = j"
      using h less.prems by (intro less.hyps) auto
    then show ?thesis using True t by (subst At_search.simps) (simp add: Let_def)
  qed
qed

lemma At_search_sorted:
  assumes "sorted xs" "i \<le> j" "j \<le> length xs" "\<forall>k<i. xs ! k < r"
    "\<forall>k. j \<le> k \<and> k < length xs \<longrightarrow> \<not> xs ! k < r"
  shows "\<exists>m. At_search (map Fin xs) (Fin r) i j = m \<and> i \<le> m \<and> m \<le> j
     \<and> (\<forall>k<m. xs ! k < r) \<and> (\<forall>k. m \<le> k \<and> k < length xs \<longrightarrow> \<not> xs ! k < r)"
  using assms
proof (induction "j - i" arbitrary: i j rule: less_induct)
  case less
  show ?case
  proof (cases "i < j")
    case False
    with less.prems have "i = j" by simp
    moreover have "At_search (map Fin xs) (Fin r) i j = i"
      using False by (subst At_search.simps) simp
    ultimately show ?thesis using less.prems by simp
  next
    case True
    let ?h = "(i + j) div 2"
    have h: "i \<le> ?h" "?h < j" "?h < length xs" using True less.prems by simp_all
    show ?thesis
    proof (cases "xs ! ?h < r")
      case lt: True
      have below: "\<forall>k<?h + 1. xs ! k < r"
      proof (intro allI impI)
        fix k assume "k < ?h + 1"
        then have "k \<le> ?h" by simp
        then have "xs ! k \<le> xs ! ?h" using less.prems(1) h(3) by (simp add: sorted_nth_mono)
        with lt show "xs ! k < r" by simp
      qed
      have "\<exists>m. At_search (map Fin xs) (Fin r) (?h + 1) j = m \<and> ?h + 1 \<le> m \<and> m \<le> j
         \<and> (\<forall>k<m. xs ! k < r) \<and> (\<forall>k. m \<le> k \<and> k < length xs \<longrightarrow> \<not> xs ! k < r)"
        using h less.prems below by (intro less.hyps) auto
      moreover have "At_search (map Fin xs) (Fin r) i j = At_search (map Fin xs) (Fin r) (?h + 1) j"
        using True lt h by (subst At_search.simps) (simp add: Let_def)
      ultimately show ?thesis using h by auto
    next
      case ge: False
      have above: "\<forall>k. ?h \<le> k \<and> k < length xs \<longrightarrow> \<not> xs ! k < r"
      proof (intro allI impI)
        fix k assume "?h \<le> k \<and> k < length xs"
        then have "xs ! ?h \<le> xs ! k" using less.prems(1) by (simp add: sorted_nth_mono)
        with ge show "\<not> xs ! k < r" by simp
      qed
      have "\<exists>m. At_search (map Fin xs) (Fin r) i ?h = m \<and> i \<le> m \<and> m \<le> ?h
         \<and> (\<forall>k<m. xs ! k < r) \<and> (\<forall>k. m \<le> k \<and> k < length xs \<longrightarrow> \<not> xs ! k < r)"
        using h less.prems above True by (intro less.hyps) auto
      moreover have "At_search (map Fin xs) (Fin r) i j = At_search (map Fin xs) (Fin r) i ?h"
        using True ge h by (subst At_search.simps) (simp add: Let_def)
      ultimately show ?thesis using h by auto
    qed
  qed
qed

text \<open>
  On an axis that increases strictly, the value lies in every interval that holds 0 and
  the samples: it is 0, a sample, or a mean of two neighbouring samples with weights
  \<open>1 - w\<close> and \<open>w\<close>, \<open>0 \<le> w \<le> 1\<close>.
\<close>

lemma in_range_Fin [simp]: "in_range lo hi (Fin r) \<longleftrightarrow> lo \<le> r \<and> r \<le> hi"
  by (simp add: in_range_def)

lemma in_rangeE: "in_range lo hi y \<Longrightarrow> \<exists>r. y = Fin r \<and> lo \<le> r \<and> r \<le> hi"
  by (cases y) (simp_all add: in_range_def)

lemma convex_in_range:
  fixes w :: real
  assumes "0 \<le> w" "w \<le> 1" "lo \<le> a" "a \<le> hi" "lo \<le> b" "b \<le> hi"
  shows "lo \<le> (1 - w) * a + w * b \<and> (1 - w) * a + w * b \<le> hi"
proof
  have "(1 - w) * lo + w * lo \<le> (1 - w) * a + w * b"
    using assms by (intro add_mono mult_left_mono) simp_all
  then show "lo \<le> (1 - w) * a + w * b" by (simp add: algebra_simps)
  have "(1 - w) * a + w * b \<le> (1 - w) * hi + w * hi"
    using assms by (intro add_mono mult_left_mono) simp_all
  then show "(1 - w) * a + w * b \<le> hi" by (simp add: algebra_simps)
qed

lemma At_empty: "At [] Y x = Inr (Fin 0)"
  by (simp add: At_def At_search.simps)

lemma At_NaN_axis: "At [NaN] Y x = Inr (Fin 0)"
proof -
  have "At_search [NaN] x 0 (length [NaN :: f64]) = 0"
    by (rule At_search_all_false) simp
  then show ?thesis by (simp add: At_def feq_def)
qed

lemma At_sorted_bounded:
  assumes srt: "sorted_wrt (<) xs" and len: "length Y = length xs"
    and Y: "list_all (in_range lo hi) Y" and lo: "lo \<le> 0" and hi: "0 \<le> hi"
  shows "\<exists>y. At (map Fin xs) Y x = Inr y \<and> in_range lo hi y"
proof (cases x)
  case NaN
  have "At_search (map Fin xs) NaN 0 (length (map Fin xs)) = 0"
    by (rule At_search_all_false) simp
  then show ?thesis using lo hi by (simp add: At_def NaN feq_def)
next
  case NInf
  have "At_search (map Fin xs) NInf 0 (length (map Fin xs)) = 0"
    by (rule At_search_all_false) simp
  then show ?thesis using lo hi by (cases xs) (simp_all add: At_def NInf feq_def)
next
  case PInf
  have "At_search (map Fin xs) PInf 0 (length (map Fin xs)) = length (map Fin xs)"
    by (rule At_search_all_true) simp_all
  then show ?thesis using lo hi by (cases xs) (simp_all add: At_def PInf feq_def Let_def)
next
  case (Fin r)
  have s: "sorted xs" using srt by (simp add: sorted_wrt_mono_rel [of xs "(<)" "(\<le>)"])
  from At_search_sorted [OF s, of 0 "length xs" r]
  obtain m where m: "At_search (map Fin xs) (Fin r) 0 (length xs) = m" "m \<le> length xs"
    "\<forall>k<m. xs ! k < r" "\<forall>k. m \<le> k \<and> k < length xs \<longrightarrow> \<not> xs ! k < r"
    by auto
  have Yk: "\<exists>y. Y ! k = Fin y \<and> lo \<le> y \<and> y \<le> hi" if "k < length xs" for k
    using Y len that by (auto simp: list_all_length dest: in_rangeE)
  consider "m = 0" | "m = length xs" "m \<noteq> 0" | "0 < m" "m < length xs" using m(2) by linarith
  then show ?thesis
  proof cases
    case 1
    show ?thesis
    proof (cases "0 < length xs")
      case False
      then show ?thesis using m(1) 1 lo hi by (simp add: At_def Fin)
    next
      case True
      from Yk [OF True] obtain y where "Y ! 0 = Fin y" "lo \<le> y" "y \<le> hi" by blast
      then show ?thesis using m(1) 1 lo hi True len by (simp add: At_def Fin feq_def)
    qed
  next
    case 2
    then show ?thesis using m(1) lo hi by (simp add: At_def Fin)
  next
    case 3
    let ?a = "xs ! (m - 1)" and ?b = "xs ! m"
    have ab: "?a < ?b" using srt 3 by (simp add: sorted_wrt_iff_nth_less)
    have ar: "?a < r" using m(3) 3 by simp
    have rb: "r \<le> ?b" using m(4) 3 by auto
    let ?w = "(r - ?a) / (?b - ?a)"
    have w: "0 \<le> ?w" "?w \<le> 1" using ab ar rb by simp_all
    have "m - 1 < length xs" using 3 by simp
    from Yk [OF this] obtain y0 where y0: "Y ! (m - 1) = Fin y0" "lo \<le> y0" "y0 \<le> hi"
      by blast
    from Yk [OF 3(2)] obtain y1 where y1: "Y ! m = Fin y1" "lo \<le> y1" "y1 \<le> hi" by blast
    have "At (map Fin xs) Y x = Inr (Fin ((1 - ?w) * y0 + ?w * y1))"
      using m(1) 3 len ab y0(1) y1(1) by (simp add: At_def Fin fsub_def Let_def)
    moreover have "lo \<le> (1 - ?w) * y0 + ?w * y1 \<and> (1 - ?w) * y0 + ?w * y1 \<le> hi"
      using w y0 y1 by (intro convex_in_range) simp_all
    ultimately show ?thesis by simp
  qed
qed

lemma SpanLog_zero: "SpanLog (Fin 0) (Fin 1) 0 = Inr []"
  by (simp add: SpanLog_def fmin_def fmax_def fsub_def)

lemma SpanLog_one: "SpanLog (Fin 0) (Fin 1) 1 = Inr [NaN]"
  by (simp add: SpanLog_def fmin_def fmax_def fsub_def)

lemma SpanLog_many:
  assumes "2 \<le> n"
  shows "SpanLog (Fin 0) (Fin 1) (int n)
     = Inr (map Fin (map (\<lambda>i. sqrt (real i / real (n - 1))) [0..<n]))"
proof -
  have d: "real_of_int (int n - 1) = real (n - 1)" "real (n - 1) \<noteq> 0" using assms by simp_all
  have nn: "\<forall>i. \<not> real i / real (n - 1) < 0" by (simp add: not_less)
  show ?thesis
    unfolding SpanLog_def Let_def d using assms nn d(2)
    by (simp add: fmin_def fmax_def fsub_def)
qed

lemma axis_sorted:
  assumes "2 \<le> n"
  shows "sorted_wrt (<) (map (\<lambda>i. sqrt (real i / real (n - 1))) [0..<n])"
  using assms by (simp add: sorted_wrt_iff_nth_less divide_strict_right_mono)

lemma At_bounded: "interp_bounded At"
  unfolding interp_bounded_def
proof (intro allI impI, elim conjE)
  fix X Y x lo hi
  assume lo: "lo \<le> (0::real)" and hi: "0 \<le> hi"
    and X: "SpanLog (Fin 0) (Fin 1) (int (length Y)) = Inr X"
    and Y: "list_all (in_range lo hi) Y"
  consider "length Y = 0" | "length Y = 1" | "2 \<le> length Y" by linarith
  then show "\<exists>y. At X Y x = Inr y \<and> in_range lo hi y"
  proof cases
    case 1
    with X have "X = []" by (simp add: SpanLog_zero)
    then show ?thesis using lo hi by (simp add: At_empty)
  next
    case 2
    with X have "X = [NaN]" by (simp add: SpanLog_one)
    then show ?thesis using lo hi by (simp add: At_NaN_axis)
  next
    case 3
    let ?xs = "map (\<lambda>i. sqrt (real i / real (length Y - 1))) [0..<length Y]"
    from X SpanLog_many [OF 3] have "X = map Fin ?xs" by simp
    moreover have "\<exists>y. At (map Fin ?xs) Y x = Inr y \<and> in_range lo hi y"
      using axis_sorted [OF 3] Y lo hi by (intro At_sorted_bounded) simp_all
    ultimately show ?thesis by simp
  qed
qed

section \<open>Properties of the spectral analyzer\<close>

lemma traverse_all:
  "\<forall>x\<in>set xs. \<exists>y. f x = Inr y \<and> P y \<Longrightarrow>
     \<exists>ys. traverse f xs = Inr ys \<and> length ys = length xs \<and> list_all P ys"
proof (induction xs)
  case Nil
  then show ?case by simp
next
  case (Cons x xs)
  then obtain y where y: "f x = Inr y" "P y" by auto
  from Cons obtain ys where "traverse f xs = Inr ys" "length ys = length xs" "list_all P ys"
    by auto
  with y show ?case by simp
qed

lemma maxfreq_step_Fin:
  "list_all is_magnitude mags \<Longrightarrow>
     \<exists>m. foldl (\<lambda>m a. if flt m a then a else m) (Fin m0) mags = Fin m \<and> m0 \<le> m
       \<and> (\<forall>x\<in>set mags. \<exists>a. x = Fin a \<and> 0 \<le> a \<and> a \<le> m)"
proof (induction mags arbitrary: m0)
  case Nil
  then show ?case by simp
next
  case (Cons x mags)
  then obtain a where a: "x = Fin a" "0 \<le> a" by (cases x) (simp_all add: is_magnitude_def)
  from Cons.prems have rest: "list_all is_magnitude mags" by simp
  from Cons.IH [OF rest, of "max m0 a"]
  obtain m where m: "foldl (\<lambda>m a. if flt m a then a else m) (Fin (max m0 a)) mags = Fin m"
    "max m0 a \<le> m" "\<forall>x\<in>set mags. \<exists>a. x = Fin a \<and> 0 \<le> a \<and> a \<le> m" by blast
  have "(if flt (Fin m0) x then x else Fin m0) = Fin (max m0 a)"
    by (simp add: a max_def)
  with m a show ?case by auto
qed

lemma maxfreq_Fin:
  "list_all is_magnitude mags \<Longrightarrow>
     \<exists>m. maxfreq mags = Fin m \<and> 0 \<le> m \<and> (\<forall>x\<in>set mags. \<exists>a. x = Fin a \<and> 0 \<le> a \<and> a \<le> m)"
  unfolding maxfreq_def by (rule maxfreq_step_Fin)

lemma maxfreq_step_not_NaN:
  "m0 \<noteq> NaN \<Longrightarrow> foldl (\<lambda>m a. if flt m a then a else m) m0 mags \<noteq> NaN"
proof (induction mags arbitrary: m0)
  case Nil
  then show ?case by simp
next
  case (Cons x mags)
  have "(if flt m0 x then x else m0) \<noteq> NaN"
    using Cons.prems by (cases x; cases m0) simp_all
  from Cons.IH [OF this] show ?case by simp
qed

lemma maxfreq_not_NaN: "maxfreq mags \<noteq> NaN"
  unfolding maxfreq_def by (rule maxfreq_step_not_NaN) simp

lemma normalize_unit:
  assumes "0 \<le> a" "a \<le> m"
  shows "in_range 0 1 (normalize (Fin a) (Fin 0) (Fin m))"
  using assms by (simp add: normalize_def feq_def fsub_def)

lemma normalize_zero: "mf \<noteq> NaN \<Longrightarrow> normalize (Fin 0) (Fin 0) mf = Fin 0"
  by (cases mf) (simp_all add: normalize_def feq_def fsub_def)

lemma normalized_unit:
  assumes "list_all is_magnitude (fft_abs ex samples)"
  shows "list_all (in_range 0 1) (normalized ex samples peak)"
proof -
  from maxfreq_Fin [OF assms]
  obtain m where m: "maxfreq (fft_abs ex samples) = Fin m" "0 \<le> m"
    "\<forall>x\<in>set (fft_abs ex samples). \<exists>a. x = Fin a \<and> 0 \<le> a \<and> a \<le> m" by blast
  show ?thesis
  proof (cases "feq peak (Fin 0)")
    case True
    then show ?thesis
      using m(2) normalize_unit [of 0 m]
      by (simp add: normalized_def silence_gate_def m(1) list_all_iff)
  next
    case False
    then show ?thesis
      using m(3) normalize_unit [of _ m]
      by (auto simp: normalized_def silence_gate_def m(1) list_all_iff)
  qed
qed

lemma normalized_silent:
  "normalized ex samples (Fin 0) = replicate (length (fft_abs ex samples)) (Fin 0)"
  by (simp add: normalized_def silence_gate_def feq_def normalize_zero maxfreq_not_NaN
      map_replicate_const)

lemma SpanLog_nat: "\<exists>X. SpanLog (Fin 0) (Fin 1) (int n) = Inr X"
  by (simp add: SpanLog_def Let_def)

lemma analyze_bounded:
  assumes ib: "interp_bounded (interp ex)" and ml: "0 \<le> maxLeds"
    and Y: "list_all (in_range lo hi) (normalized ex samples peak)" and lo: "lo \<le> 0" and hi: "0 \<le> hi"
  shows "\<exists>bins. analyze ex maxLeds samples peak = Inr bins \<and> length bins = nat maxLeds
           \<and> list_all (in_range lo hi) bins"
proof -
  let ?Y = "normalized ex samples peak"
  obtain X where X: "SpanLog (Fin 0) (Fin 1) (int (length ?Y)) = Inr X"
    using SpanLog_nat by blast
  have "\<exists>y. interp ex X ?Y x = Inr y \<and> in_range lo hi y" for x
    using ib X Y lo hi unfolding interp_bounded_def by blast
  then have "\<exists>ys. traverse (\<lambda>i. interp ex X ?Y (fdiv (Fin (real i)) (Fin (real_of_int (maxLeds - 1)))))
                 [0..<nat maxLeds] = Inr ys
               \<and> length ys = length [0..<nat maxLeds] \<and> list_all (in_range lo hi) ys"
    by (intro traverse_all) simp
  then show ?thesis
    using ml by (simp add: analyze_def Let_def X)
qed

lemma analyze_unit:
  assumes "interp_bounded (interp ex)" "0 \<le> maxLeds" "list_all is_magnitude (fft_abs ex samples)"
  shows "\<exists>bins. analyze ex maxLeds samples peak = Inr bins \<and> length bins = nat maxLeds
           \<and> list_all (in_range 0 1) bins"
  using assms(1,2) normalized_unit [OF assms(3)] by (rule analyze_bounded) simp_all

lemma in_range_zero: "list_all (in_range 0 0) xs \<Longrightarrow> xs = replicate (length xs) (Fin 0)"
  by (induction xs) (auto dest: in_rangeE)

lemma analyze_silent:
  assumes "interp_bounded (interp ex)" "0 \<le> maxLeds"
  shows "analyze ex maxLeds samples (Fin 0) = Inr (replicate (nat maxLeds) (Fin 0))"
proof -
  have "list_all (in_range 0 0) (normalized ex samples (Fin 0))"
    by (simp add: normalized_silent list_all_iff)
  from analyze_bounded [OF assms this]
  obtain bins where "analyze ex maxLeds samples (Fin 0) = Inr bins" "length bins = nat maxLeds"
    "list_all (in_range 0 0) bins" by auto
  then show ?thesis using in_range_zero by force
qed

lemma shape_val_silent: "shape_val (Fin 0) (Fin 0) = Fin (1 / 4)"
  by (simp add: shape_val_def fsub_def fmin_def fmax_def)

lemma synthesize_silent:
  "synthesize ex v (Fin 0) (replicate n (Fin 0))
     = concat (replicate n (case hsv ex (gradient v (Fin 0)) of
                              (hue, sat, val0) \<Rightarrow> hsv_pixel ex hue sat (Fin (1 / 4))))"
  by (simp add: synthesize_def pixel_def shape_val_silent map_replicate_const)

lemma At_search_done: "\<not> i < j \<Longrightarrow> At_search X x i j = i"
  by (subst At_search.simps) simp

lemma At_search_right:
  "i < j \<Longrightarrow> flt (X ! ((i + j) div 2)) x \<Longrightarrow> At_search X x i j = At_search X x ((i + j) div 2 + 1) j"
  by (subst At_search.simps) (simp add: Let_def)

lemma At_search_left:
  "i < j \<Longrightarrow> \<not> flt (X ! ((i + j) div 2)) x \<Longrightarrow> At_search X x i j = At_search X x i ((i + j) div 2)"
  by (subst At_search.simps) (simp add: Let_def)

lemma demo_axis: "SpanLog (Fin 0) (Fin 1) 2 = Inr [Fin 0, Fin 1]"
  by (simp add: SpanLog_def fmin_def fmax_def fsub_def upt_rec numeral_2_eq_2)

lemma demo_At_0: "At [Fin 0, Fin 1] [Fin (1 / 2), Fin 1] (Fin 0) = Inr (Fin (1 / 2))"
  by (simp add: At_def At_search_done At_search_right At_search_left feq_def)

lemma demo_At_half: "At [Fin 0, Fin 1] [Fin (1 / 2), Fin 1] (Fin (1 / 2)) = Inr (Fin (3 / 4))"
  by (simp add: At_def At_search_done At_search_right At_search_left feq_def fsub_def)

lemma demo_At_1: "At [Fin 0, Fin 1] [Fin (1 / 2), Fin 1] (Fin 1) = Inr (Fin 1)"
  by (simp add: At_def At_search_done At_search_right At_search_left feq_def fsub_def)

lemma demo_analyze: "analyze demo_ext 3 [Fin 1, Fin (- 2), Fin 3, Fin 4, Fin 0, Fin 0] (Fin 1)
   = Inr [Fin (1 / 2), Fin (3 / 4), Fin 1]"
  by (simp add: analyze_def normalized_def demo_ext_def maxfreq_def silence_gate_def feq_def
      normalize_def fsub_def demo_axis demo_At_0 demo_At_half demo_At_1 upt_rec Let_def)

lemma replicate_two: "replicate 2 x = [x, x]"
  by (simp add: numeral_2_eq_2)

text \<open>
  C3. Let the transform return magnitudes (finite, not negative), let the interpolation
  stay within the range of its samples and 0 on the warped axis, and let the LED count
  not be negative. Then for every non-empty sample sequence and every peak the analyzer
  returns, without a panic, exactly \<open>maxLedCount\<close> bins, each a number in \<open>[0,1]\<close>.
\<close>

theorem analyzer_bins_unit:
  assumes "interp_bounded (interp ex)" and "0 \<le> maxLeds" and "samples \<noteq> []"
    and "list_all is_magnitude (fft_abs ex samples)"
  shows "\<exists>bins. analyze ex maxLeds samples peak = Inr bins \<and> length bins = nat maxLeds
           \<and> list_all (in_range 0 1) bins"
  using assms(1,2,4) by (rule analyze_unit)

theorem analyzer_bins_unit_witness:
  "interp_bounded (interp demo_ext) \<and> (0::int) \<le> 3
   \<and> [Fin 1, Fin (- 2), Fin 3, Fin 4, Fin 0, Fin 0] \<noteq> []
   \<and> list_all is_magnitude (fft_abs demo_ext [Fin 1, Fin (- 2), Fin 3, Fin 4, Fin 0, Fin 0])
   \<and> analyze demo_ext 3 [Fin 1, Fin (- 2), Fin 3, Fin 4, Fin 0, Fin 0] (Fin 1)
       = Inr [Fin (1 / 2), Fin (3 / 4), Fin 1]
   \<and> list_all (in_range 0 1) [Fin (1 / 2), Fin (3 / 4), Fin 1]"
  using analyzer_bins_unit [of demo_ext 3 "[Fin 1, Fin (- 2), Fin 3, Fin 4, Fin 0, Fin 0]" "Fin 1"]
    At_bounded demo_analyze
  by (simp add: demo_ext_def is_magnitude_def)

section \<open>Properties of the silence gate\<close>

lemma silence_lemma:
  assumes "interp_bounded (interp ex)" and "0 \<le> maxLedCount v"
  shows "silence_gate (Fin 0) (fft_abs ex samples) = replicate (length (fft_abs ex samples)) (Fin 0)
    \<and> analyze ex (maxLedCount v) samples (Fin 0) = Inr (replicate (nat (maxLedCount v)) (Fin 0))
    \<and> shape_val (Fin 0) (Fin 0) = Fin (1 / 4)
    \<and> synthesize ex v (Fin 0) (replicate (nat (maxLedCount v)) (Fin 0))
        = concat (replicate (nat (maxLedCount v))
            (case hsv ex (gradient v (Fin 0)) of (hue, sat, val0) \<Rightarrow> hsv_pixel ex hue sat (Fin (1 / 4))))"
  using analyze_silent [OF assms] shape_val_silent synthesize_silent
  by (simp add: silence_gate_def feq_def map_replicate_const)

lemma demo_pixel:
  "synthesize demo_ext demo_Visualizer (Fin 0) [Fin 0, Fin 0] = [64, 64, 64, 255, 64, 64, 64, 255]"
  by (simp add: synthesize_def pixel_def shape_val_silent demo_ext_def demo_Visualizer_def
      new_Visualizer_def hsv_pixel_def grey_def)

text \<open>
  C7. With a peak of exactly 0 the gate sets every magnitude to 0, whatever the transform
  returned; the analyzer (with an interpolation as in C3 and an LED count that is not
  negative) returns \<open>maxLedCount\<close> bins that are all 0; and the synthesizer builds every
  LED's colour with the value component \<open>0.25\<close>.
\<close>

theorem silence_floor:
  assumes "interp_bounded (interp ex)" and "0 \<le> maxLedCount v"
  shows "silence_gate (Fin 0) (fft_abs ex samples) = replicate (length (fft_abs ex samples)) (Fin 0)
    \<and> analyze ex (maxLedCount v) samples (Fin 0) = Inr (replicate (nat (maxLedCount v)) (Fin 0))
    \<and> shape_val (Fin 0) (Fin 0) = Fin (1 / 4)
    \<and> synthesize ex v (Fin 0) (replicate (nat (maxLedCount v)) (Fin 0))
        = concat (replicate (nat (maxLedCount v))
            (case hsv ex (gradient v (Fin 0)) of (hue, sat, val0) \<Rightarrow> hsv_pixel ex hue sat (Fin (1 / 4))))"
  using assms by (rule silence_lemma)

theorem silence_floor_witness:
  "interp_bounded (interp demo_ext) \<and> 0 \<le> maxLedCount demo_Visualizer
   \<and> analyze demo_ext (maxLedCount demo_Visualizer) [Fin 7, Fin (- 7)] (Fin 0) = Inr [Fin 0, Fin 0]
   \<and> synthesize demo_ext demo_Visualizer (Fin 0) [Fin 0, Fin 0] = [64, 64, 64, 255, 64, 64, 64, 255]"
proof -
  have i: "interp_bounded (interp demo_ext)" using At_bounded by (simp add: demo_ext_def)
  have m: "maxLedCount demo_Visualizer = 2" by (simp add: demo_Visualizer_def new_Visualizer_def)
  from silence_floor [of demo_ext demo_Visualizer "[Fin 7, Fin (- 7)]"] i m
  have "analyze demo_ext (maxLedCount demo_Visualizer) [Fin 7, Fin (- 7)] (Fin 0) = Inr [Fin 0, Fin 0]"
    by (simp add: replicate_two)
  with i m demo_pixel show ?thesis by simp
qed

section \<open>A whole call\<close>

text \<open>
  One call of \<open>process\<close> through all stages, on a silent frame: two LEDs at the floor
  brightness, appended to the empty history, smoothed to themselves, and handed to the
  two segments, each from the start of the frame.
\<close>

lemma demo_process_silent:
  "process demo_ext demo_Visualizer \<lparr>pixs = [], it = 0\<rparr> [Fin 7, Fin (- 7)] (Fin 0) 5
     = Inr (demo_Visualizer, \<lparr>pixs = [[64, 64, 64, 255, 64, 64, 64, 255]], it = 2\<rparr>,
            Some \<lparr>Segments = [\<lparr>SegId = 0, Pix = [64, 64, 64, 255]\<rparr>,
                                \<lparr>SegId = 1, Pix = [64, 64, 64, 255, 64, 64, 64, 255]\<rparr>],
                   Duration = 5\<rparr>)"
proof -
  let ?p = "[64, 64, 64, 255, 64, 64, 64, 255] :: byte list"
  have i: "interp_bounded (interp demo_ext)" using At_bounded by (simp add: demo_ext_def)
  have m: "maxLedCount (demo_Visualizer\<lparr>processing := True\<rparr>) = 2"
    "windowSize (demo_Visualizer\<lparr>processing := True\<rparr>) = 2"
    "segments (demo_Visualizer\<lparr>processing := True\<rparr>) = [\<lparr>Id = 0, Leds = 1\<rparr>, \<lparr>Id = 1, Leds = 2\<rparr>]"
    "\<not> processing demo_Visualizer"
    "demo_Visualizer\<lparr>processing := False\<rparr> = demo_Visualizer"
    by (simp_all add: demo_Visualizer_def new_Visualizer_def)
  have a: "analyze demo_ext 2 [Fin 7, Fin (- 7)] (Fin 0) = Inr [Fin 0, Fin 0]"
    using analyze_silent [OF i, of 2 "[Fin 7, Fin (- 7)]"] by (simp add: replicate_two)
  have s: "synthesize demo_ext (demo_Visualizer\<lparr>processing := True\<rparr>) (Fin 0) [Fin 0, Fin 0] = ?p"
    by (simp add: synthesize_def pixel_def shape_val_silent demo_ext_def demo_Visualizer_def
      new_Visualizer_def hsv_pixel_def grey_def)
  have sm: "smooth_step demo_ext (demo_Visualizer\<lparr>processing := True\<rparr>) \<lparr>pixs = [], it = 0\<rparr> ?p
      = Inr (\<lparr>pixs = [?p], it = 0\<rparr>, frame_values ?p)"
    using smooth_one [where ex = demo_ext and p = ?p]
    by (simp add: smooth_step_def history_append_def m)
  have d: "distribute demo_ext (frame_values ?p) [\<lparr>Id = 0, Leds = 1\<rparr>, \<lparr>Id = 1, Leds = 2\<rparr>]
      = Inr [\<lparr>SegId = 0, Pix = [64, 64, 64, 255]\<rparr>, \<lparr>SegId = 1, Pix = ?p\<rparr>]"
    using distribute_prefix_lemma [of "frame_values ?p" "[\<lparr>Id = 0, Leds = 1\<rparr>, \<lparr>Id = 1, Leds = 2\<rparr>]" demo_ext]
    by (simp add: frame_values_def uint8_of_def)
  show ?thesis
    by (simp add: process_def process_body_def m a s sm d)
qed

end
